theory Spec2Isabelle
  imports Main "HOL-Library.Word"
begin

section \<open>Intervals and interval sets (intervalset.py)\<close>

text \<open>
  A shallow embedding of \<^verbatim>\<open>intervalset.py\<close>, read as a Python 3 module (the class
  defines \<^verbatim>\<open>__bool__\<close>, the Python 3 truth protocol). Endpoint values are taken from
  an arbitrary linear order \<open>'a\<close>; Python's \<^verbatim>\<open>int\<close> is the instance used in the examples.
  Exceptions are values: a function that can raise returns \<open>error + 'a\<close>.
\<close>

datatype error = TypeError | AttributeError | ValueError | InternalError

text \<open>
  The objects that the module passes around as intervals: an instance of the named tuple
  (\<^verbatim>\<open>_InternalInterval.__new__(cls, begin, end)\<close>) or Python's \<^verbatim>\<open>None\<close> object.
\<close>

datatype 'a interval = PyNone | InternalInterval 'a 'a

subsection \<open>The factory and the module constant\<close>

text \<open>
  \<^verbatim>\<open>Interval.__new__\<close> reads the module global \<^verbatim>\<open>EMPTY_INTERVAL\<close>; \<open>G\<close> is the object
  the global is bound to when the call is made. Python parses the condition
  \<^verbatim>\<open>EMPTY_INTERVAL is not None and begin is None or end is None or end < begin\<close> as
  \<^verbatim>\<open>(EMPTY_INTERVAL is not None and begin is None) or (end is None) or (end < begin)\<close>.
  An absent endpoint is \<open>None\<close>; comparing a value with \<^verbatim>\<open>None\<close> raises TypeError.
\<close>

definition Interval_new :: "'a::linorder interval \<Rightarrow> 'a option \<Rightarrow> 'a option \<Rightarrow> error + 'a interval" where
  "Interval_new G b e =
     (if (G \<noteq> PyNone \<and> b = None) \<or> e = None then Inr G
      else (case (b, e) of
              (Some bv, Some ev) \<Rightarrow> if ev < bv then Inr G else Inr (InternalInterval bv ev)
            | _ \<Rightarrow> Inl TypeError))"

text \<open>
  Module initialisation: line 138 binds the global to \<^verbatim>\<open>None\<close>, line 139 rebinds it to
  the value of \<^verbatim>\<open>Interval(None, None)\<close>, computed while the global is still \<^verbatim>\<open>None\<close>.
\<close>

definition module_init :: "error + 'a::linorder interval" where
  "module_init = Interval_new PyNone None None"

text \<open>The constant after initialisation (see \<open>module_init_None\<close> below).\<close>

definition EMPTY_INTERVAL :: "'a interval" where
  "EMPTY_INTERVAL = PyNone"

text \<open>The factory on two present endpoints, once the module is initialised.\<close>

definition Interval :: "'a::linorder \<Rightarrow> 'a \<Rightarrow> 'a interval" where
  "Interval b e = (if e < b then EMPTY_INTERVAL else InternalInterval b e)"

subsection \<open>Methods of Interval\<close>

text \<open>\<^verbatim>\<open>__bool__\<close>: \<^verbatim>\<open>self is not EMPTY_INTERVAL\<close>.\<close>

definition Interval_bool :: "'a interval \<Rightarrow> bool" where
  "Interval_bool self = (self \<noteq> EMPTY_INTERVAL)"

text \<open>Python's truth test (\<^verbatim>\<open>if x\<close>, \<^verbatim>\<open>not x\<close>): \<^verbatim>\<open>None\<close> is false, an instance asks \<^verbatim>\<open>__bool__\<close>.\<close>

fun truth :: "'a interval \<Rightarrow> bool" where
  "truth PyNone = False"
| "truth (InternalInterval b e) = Interval_bool (InternalInterval b e)"

text \<open>
  The method bodies, as functions of \<^verbatim>\<open>self\<close> and \<^verbatim>\<open>other\<close>. The last equation of each
  is the branch taken when \<^verbatim>\<open>not self or not other\<close> holds.
\<close>

fun Interval_and :: "'a::linorder interval \<Rightarrow> 'a interval \<Rightarrow> 'a interval" where
  "Interval_and (InternalInterval b1 e1) (InternalInterval b2 e2) =
     (if e1 \<le> b2 \<or> e2 \<le> b1 then EMPTY_INTERVAL
      else if b2 \<le> b1 \<and> e1 \<le> e2 then InternalInterval b1 e1
      else if b1 \<le> b2 \<and> e2 \<le> e1 then InternalInterval b2 e2
      else Interval (if b2 < b1 then b1 else b2) (if e1 < e2 then e1 else e2))"
| "Interval_and _ _ = EMPTY_INTERVAL"

fun Interval_or :: "'a::linorder interval \<Rightarrow> 'a interval \<Rightarrow> error + 'a interval" where
  "Interval_or (InternalInterval b1 e1) (InternalInterval b2 e2) =
     (if e1 < b2 \<or> e2 < b1 then Inl ValueError
      else if b2 \<le> b1 \<and> e1 \<le> e2 then Inr (InternalInterval b2 e2)
      else if b1 \<le> b2 \<and> e2 \<le> e1 then Inr (InternalInterval b1 e1)
      else Inr (Interval (if b2 < b1 then b2 else b1) (if e1 < e2 then e2 else e1)))"
| "Interval_or _ _ = Inl ValueError"

text \<open>\<^verbatim>\<open>__contains__(self, other)\<close>, the value of \<^verbatim>\<open>other in self\<close>.\<close>

fun Interval_contains :: "'a::linorder interval \<Rightarrow> 'a interval \<Rightarrow> bool" where
  "Interval_contains (InternalInterval b1 e1) (InternalInterval b2 e2) = (b1 \<le> b2 \<and> e2 \<le> e1)"
| "Interval_contains _ _ = False"

fun is_before_than :: "'a::linorder interval \<Rightarrow> 'a interval \<Rightarrow> bool" where
  "is_before_than (InternalInterval b1 e1) (InternalInterval b2 e2) = (e1 < b2)"
| "is_before_than _ _ = True"

fun is_after_than :: "'a::linorder interval \<Rightarrow> 'a interval \<Rightarrow> bool" where
  "is_after_than (InternalInterval b1 e1) (InternalInterval b2 e2) = (e2 < b1)"
| "is_after_than _ _ = False"

subsection \<open>Operators and method calls as Python dispatches them\<close>

text \<open>
  \<^verbatim>\<open>a & b\<close>, \<^verbatim>\<open>a | b\<close>, \<^verbatim>\<open>b in a\<close> and \<^verbatim>\<open>a.is_before_than(b)\<close> look the method up on
  the type of \<open>a\<close>. \<^verbatim>\<open>None\<close> has none of them and the named tuple defines no reflected
  operator, so with \<^verbatim>\<open>None\<close> on the left the expression raises before any method body
  of the module runs.
\<close>

fun py_and :: "'a::linorder interval \<Rightarrow> 'a interval \<Rightarrow> error + 'a interval" where
  "py_and PyNone other = Inl TypeError"
| "py_and (InternalInterval b e) other = Inr (Interval_and (InternalInterval b e) other)"

fun py_or :: "'a::linorder interval \<Rightarrow> 'a interval \<Rightarrow> error + 'a interval" where
  "py_or PyNone other = Inl TypeError"
| "py_or (InternalInterval b e) other = Interval_or (InternalInterval b e) other"

text \<open>\<open>py_in other self\<close> is \<^verbatim>\<open>other in self\<close>.\<close>

fun py_in :: "'a::linorder interval \<Rightarrow> 'a interval \<Rightarrow> error + bool" where
  "py_in other PyNone = Inl TypeError"
| "py_in other (InternalInterval b e) = Inr (Interval_contains (InternalInterval b e) other)"

fun call_is_before_than :: "'a::linorder interval \<Rightarrow> 'a interval \<Rightarrow> error + bool" where
  "call_is_before_than PyNone other = Inl AttributeError"
| "call_is_before_than (InternalInterval b e) other = Inr (is_before_than (InternalInterval b e) other)"

text \<open>
  \<^verbatim>\<open>a < b\<close>, as \<^verbatim>\<open>sorted\<close> evaluates it: tuples compare lexicographically, and an
  ordering comparison with \<^verbatim>\<open>None\<close> on either side raises TypeError.
\<close>

fun py_lt :: "'a::linorder interval \<Rightarrow> 'a interval \<Rightarrow> error + bool" where
  "py_lt (InternalInterval b1 e1) (InternalInterval b2 e2) = Inr (b1 < b2 \<or> (b1 = b2 \<and> e1 < e2))"
| "py_lt _ _ = Inl TypeError"

text \<open>\<^verbatim>\<open>i1.end == i2.begin\<close>: attribute access on \<^verbatim>\<open>None\<close> raises AttributeError.\<close>

fun end_eq_begin :: "'a interval \<Rightarrow> 'a interval \<Rightarrow> error + bool" where
  "end_eq_begin (InternalInterval b1 e1) (InternalInterval b2 e2) = Inr (e1 = b2)"
| "end_eq_begin _ _ = Inl AttributeError"

subsection \<open>IntervalSet construction\<close>

text \<open>
  \<^verbatim>\<open>sorted(items)\<close>, as an insertion sort on Python's \<^verbatim>\<open><\<close>. The order on named
  tuples is total and antisymmetric, so every sorting algorithm returns the same list;
  and in a list of two or more items every item takes part in a comparison, so the call
  raises in this model exactly when CPython's does.
\<close>

fun insort_py :: "'a::linorder interval \<Rightarrow> 'a interval list \<Rightarrow> error + 'a interval list" where
  "insort_py x [] = Inr [x]"
| "insort_py x (y # ys) =
     (case py_lt y x of
        Inl err \<Rightarrow> Inl err
      | Inr True \<Rightarrow> (case insort_py x ys of Inl err \<Rightarrow> Inl err | Inr r \<Rightarrow> Inr (y # r))
      | Inr False \<Rightarrow> Inr (x # y # ys))"

fun sorted_py :: "'a::linorder interval list \<Rightarrow> error + 'a interval list" where
  "sorted_py [] = Inr []"
| "sorted_py (x # xs) = (case sorted_py xs of Inl err \<Rightarrow> Inl err | Inr ys \<Rightarrow> insort_py x ys)"

text \<open>
  The first loop of \<^verbatim>\<open>_fill_items\<close>: \<^verbatim>\<open>for i1 in it: if i1: break\<close>. It returns the
  last value bound to \<^verbatim>\<open>i1\<close> and what is left of the iterator.
\<close>

fun first_nonempty :: "'a interval \<Rightarrow> 'a interval list \<Rightarrow> 'a interval \<times> 'a interval list" where
  "first_nonempty i1 [] = (i1, [])"
| "first_nonempty i1 (x # it) = (if truth x then (x, it) else first_nonempty x it)"

text \<open>
  The second loop, \<^verbatim>\<open>for i2 in it\<close>, with the final \<^verbatim>\<open>if i1: _items.append(i1)\<close>.
\<close>

fun unify :: "'a::linorder interval list \<Rightarrow> 'a interval \<Rightarrow> 'a interval list \<Rightarrow> error + 'a interval list" where
  "unify items i1 [] = Inr (if truth i1 then items @ [i1] else items)"
| "unify items i1 (i2 # it) =
     (case call_is_before_than i1 i2 of
        Inl err \<Rightarrow> Inl err
      | Inr True \<Rightarrow> unify (items @ [i1]) i2 it
      | Inr False \<Rightarrow>
          (case py_and i1 i2 of
             Inl err \<Rightarrow> Inl err
           | Inr i3 \<Rightarrow>
               (case (if truth i3 then Inr True else end_eq_begin i1 i2) of
                  Inl err \<Rightarrow> Inl err
                | Inr True \<Rightarrow> (case py_or i1 i2 of Inl err \<Rightarrow> Inl err | Inr u \<Rightarrow> unify items u it)
                | Inr False \<Rightarrow> Inl InternalError)))"

text \<open>\<^verbatim>\<open>IntervalSet(*items)\<close>: the tuple \<^verbatim>\<open>_items\<close> of the new set, or the exception.\<close>

definition fill_items :: "'a::linorder interval list \<Rightarrow> error + 'a interval list" where
  "fill_items items =
     (if items = [] then Inr []
      else (case sorted_py items of
              Inl err \<Rightarrow> Inl err
            | Inr s \<Rightarrow> (case first_nonempty PyNone s of (i1, it) \<Rightarrow> unify [] i1 it)))"

subsection \<open>Set algebra\<close>

text \<open>
  An IntervalSet is modelled by its tuple \<^verbatim>\<open>_items\<close>; \<^verbatim>\<open>not self\<close> is
  \<^verbatim>\<open>len(self) == 0\<close>. An iterator is the list of items it has not yet produced, and
  \<^verbatim>\<open>next\<close> on the empty list is StopIteration.
\<close>

text \<open>\<^verbatim>\<open>i1.end < i2.end\<close>.\<close>

fun end_lt_end :: "'a::linorder interval \<Rightarrow> 'a interval \<Rightarrow> error + bool" where
  "end_lt_end (InternalInterval b1 e1) (InternalInterval b2 e2) = Inr (e1 < e2)"
| "end_lt_end _ _ = Inl AttributeError"

text \<open>The loop of \<^verbatim>\<open>IntervalSet.__and__\<close>; StopIteration leaves it with \<^verbatim>\<open>new_items\<close>.\<close>

fun and_loop :: "'a::linorder interval list \<Rightarrow> 'a interval \<Rightarrow> 'a interval list \<Rightarrow> 'a interval \<Rightarrow> 'a interval list
    \<Rightarrow> error + 'a interval list" where
  "and_loop new_items i1 it1 i2 it2 =
     (case call_is_before_than i1 i2 of
        Inl err \<Rightarrow> Inl err
      | Inr True \<Rightarrow> (case it1 of [] \<Rightarrow> Inr new_items | x # r \<Rightarrow> and_loop new_items x r i2 it2)
      | Inr False \<Rightarrow>
          (case call_is_before_than i2 i1 of
             Inl err \<Rightarrow> Inl err
           | Inr True \<Rightarrow> (case it2 of [] \<Rightarrow> Inr new_items | x # r \<Rightarrow> and_loop new_items i1 it1 x r)
           | Inr False \<Rightarrow>
               (case py_and i1 i2 of
                  Inl err \<Rightarrow> Inl err
                | Inr i3 \<Rightarrow>
                    (case end_lt_end i1 i2 of
                       Inl err \<Rightarrow> Inl err
                     | Inr True \<Rightarrow>
                         (case it1 of
                            [] \<Rightarrow> Inr (if truth i3 then new_items @ [i3] else new_items)
                          | x # r \<Rightarrow> and_loop (if truth i3 then new_items @ [i3] else new_items) x r i2 it2)
                     | Inr False \<Rightarrow>
                         (case it2 of
                            [] \<Rightarrow> Inr (if truth i3 then new_items @ [i3] else new_items)
                          | x # r \<Rightarrow> and_loop (if truth i3 then new_items @ [i3] else new_items) i1 it1 x r)))))"

definition IntervalSet_and :: "'a::linorder interval list \<Rightarrow> 'a interval list \<Rightarrow> error + 'a interval list" where
  "IntervalSet_and self other =
     (if self = [] then Inr self
      else if other = [] then Inr other
      else (case and_loop [] (hd self) (tl self) (hd other) (tl other) of
              Inl err \<Rightarrow> Inl err
            | Inr new_items \<Rightarrow> fill_items new_items))"

text \<open>
  The loop of \<^verbatim>\<open>IntervalSet.__or__\<close>, with the final
  \<^verbatim>\<open>if remaining: new_items += list(remaining)\<close> done where the loop breaks (an iterator
  object is true). In the last branch, when \<^verbatim>\<open>it2\<close> is exhausted after \<^verbatim>\<open>it1\<close> has
  advanced, \<^verbatim>\<open>remaining\<close> stays \<^verbatim>\<open>None\<close>.
\<close>

fun or_loop :: "'a::linorder interval list \<Rightarrow> 'a interval \<Rightarrow> 'a interval list \<Rightarrow> 'a interval \<Rightarrow> 'a interval list
    \<Rightarrow> error + 'a interval list" where
  "or_loop new_items i1 it1 i2 it2 =
     (case call_is_before_than i1 i2 of
        Inl err \<Rightarrow> Inl err
      | Inr True \<Rightarrow>
          (case it1 of
             [] \<Rightarrow> Inr (new_items @ [i1] @ [i2] @ it2)
           | x # r \<Rightarrow> or_loop (new_items @ [i1]) x r i2 it2)
      | Inr False \<Rightarrow>
          (case call_is_before_than i2 i1 of
             Inl err \<Rightarrow> Inl err
           | Inr True \<Rightarrow>
               (case it2 of
                  [] \<Rightarrow> Inr (new_items @ [i2] @ [i1] @ it1)
                | x # r \<Rightarrow> or_loop (new_items @ [i2]) i1 it1 x r)
           | Inr False \<Rightarrow>
               (case py_or i1 i2 of
                  Inl err \<Rightarrow> Inl err
                | Inr u \<Rightarrow>
                    (case it1 of
                       [] \<Rightarrow> Inr (new_items @ [u] @ it2)
                     | x # r \<Rightarrow>
                         (case it2 of
                            [] \<Rightarrow> Inr (new_items @ [u] @ [x])
                          | y # r2 \<Rightarrow> or_loop (new_items @ [u]) x r y r2)))))"

definition IntervalSet_or :: "'a::linorder interval list \<Rightarrow> 'a interval list \<Rightarrow> error + 'a interval list" where
  "IntervalSet_or self other =
     (if self = [] then Inr other
      else if other = [] then Inr self
      else (case or_loop [] (hd self) (tl self) (hd other) (tl other) of
              Inl err \<Rightarrow> Inl err
            | Inr new_items \<Rightarrow> fill_items new_items))"

text \<open>
  \<^verbatim>\<open>IntervalSet.__sub__\<close>. \<open>tr\<close> is the truth value of an endpoint (for \<^verbatim>\<open>int\<close>:
  being non-zero), which the final test \<^verbatim>\<open>if b1 and e1 and b1 < e1\<close> asks for.
  \<open>flush\<close> is that test when the loop was left by \<^verbatim>\<open>next(it2)\<close>; when it was left by
  \<^verbatim>\<open>next(it1)\<close>, \<^verbatim>\<open>b1\<close> and \<^verbatim>\<open>e1\<close> are \<^verbatim>\<open>None\<close> and nothing is appended.
\<close>

definition flush :: "('a::linorder \<Rightarrow> bool) \<Rightarrow> 'a interval list \<Rightarrow> 'a \<Rightarrow> 'a \<Rightarrow> 'a interval list" where
  "flush tr new_items b1 e1 = (if tr b1 \<and> tr e1 \<and> b1 < e1 then new_items @ [Interval b1 e1] else new_items)"

text \<open>
  The \<^verbatim>\<open>while True\<close> loop. \<^verbatim>\<open>b, e = next(it)\<close> unpacks a named tuple and raises TypeError
  on \<^verbatim>\<open>None\<close>. When no test of the body applies, the body changes nothing and the loop
  runs forever: the result is \<open>None\<close>.
\<close>

function sub_loop :: "('a::linorder \<Rightarrow> bool) \<Rightarrow> 'a interval list \<Rightarrow> 'a \<Rightarrow> 'a \<Rightarrow> 'a interval list \<Rightarrow> 'a \<Rightarrow> 'a
    \<Rightarrow> 'a interval list \<Rightarrow> (error + 'a interval list) option" where
  "sub_loop tr new_items b1 e1 it1 b2 e2 it2 =
     (if e1 \<le> b1 then
        (case it1 of
           [] \<Rightarrow> Some (Inr new_items)
         | PyNone # r \<Rightarrow> Some (Inl TypeError)
         | InternalInterval b e # r \<Rightarrow> sub_loop tr new_items b e r b2 e2 it2)
      else if e1 \<le> b2 then
        (case it1 of
           [] \<Rightarrow> Some (Inr (new_items @ [Interval b1 e1]))
         | PyNone # r \<Rightarrow> Some (Inl TypeError)
         | InternalInterval b e # r \<Rightarrow> sub_loop tr (new_items @ [Interval b1 e1]) b e r b2 e2 it2)
      else if e2 \<le> b1 then
        (case it2 of
           [] \<Rightarrow> Some (Inr (flush tr new_items b1 e1))
         | PyNone # r \<Rightarrow> Some (Inl TypeError)
         | InternalInterval b e # r \<Rightarrow> sub_loop tr new_items b1 e1 it1 b e r)
      else if b1 < b2 \<and> b2 \<le> e1 \<and> e1 \<le> e2 then
        (case it1 of
           [] \<Rightarrow> Some (Inr (new_items @ [Interval b1 b2]))
         | PyNone # r \<Rightarrow> Some (Inl TypeError)
         | InternalInterval b e # r \<Rightarrow> sub_loop tr (new_items @ [Interval b1 b2]) b e r b2 e2 it2)
      else if b2 \<le> b1 \<and> b1 \<le> e2 \<and> e2 < e1 then
        (case it2 of
           [] \<Rightarrow> Some (Inr (flush tr new_items e2 e1))
         | PyNone # r \<Rightarrow> Some (Inl TypeError)
         | InternalInterval b e # r \<Rightarrow> sub_loop tr new_items e2 e1 it1 b e r)
      else if b2 \<le> b1 \<and> b1 \<le> e1 \<and> e1 \<le> e2 then
        (case it1 of
           [] \<Rightarrow> Some (Inr new_items)
         | PyNone # r \<Rightarrow> Some (Inl TypeError)
         | InternalInterval b e # r \<Rightarrow> sub_loop tr new_items b e r b2 e2 it2)
      else if b1 < b2 \<and> b2 \<le> e2 \<and> e2 \<le> e1 then
        sub_loop tr (new_items @ [Interval b1 b2]) e2 e1 it1 b2 e2 it2
      else None)"
  by pat_completeness auto
termination
  by (relation "measure (\<lambda>(tr, new_items, b1, e1, it1, b2, e2, it2).
        2 * (length it1 + length it2) + (if e1 \<le> b1 \<or> e2 \<le> b1 then 0 else 1))")
     auto

definition IntervalSet_sub :: "('a::linorder \<Rightarrow> bool) \<Rightarrow> 'a interval list \<Rightarrow> 'a interval list
    \<Rightarrow> (error + 'a interval list) option" where
  "IntervalSet_sub tr self other =
     (if self = [] then Some (Inr self)
      else if other = [] then Some (Inr self)
      else (case (hd self, hd other) of
              (InternalInterval b1 e1, InternalInterval b2 e2) \<Rightarrow>
                (case sub_loop tr [] b1 e1 (tl self) b2 e2 (tl other) of
                   None \<Rightarrow> None
                 | Some (Inl err) \<Rightarrow> Some (Inl err)
                 | Some (Inr new_items) \<Rightarrow> Some (fill_items new_items))
            | _ \<Rightarrow> Some (Inl TypeError)))"

text \<open>\<^verbatim>\<open>__xor__\<close>: \<^verbatim>\<open>(self | other) - (self & other)\<close>, the union evaluated first.\<close>

definition IntervalSet_xor :: "('a::linorder \<Rightarrow> bool) \<Rightarrow> 'a interval list \<Rightarrow> 'a interval list
    \<Rightarrow> (error + 'a interval list) option" where
  "IntervalSet_xor tr self other =
     (case IntervalSet_or self other of
        Inl err \<Rightarrow> Some (Inl err)
      | Inr u \<Rightarrow>
          (case IntervalSet_and self other of
             Inl err \<Rightarrow> Some (Inl err)
           | Inr n \<Rightarrow> IntervalSet_sub tr u n))"

subsection \<open>Hashing, equality and membership\<close>

text \<open>
  Python's built-in \<^verbatim>\<open>hash\<close> is not part of the module and is a parameter: the hash of
  an endpoint value, of \<^verbatim>\<open>None\<close>, and of a tuple as a function of the hashes of its
  members (named tuples inherit the tuple's \<^verbatim>\<open>__hash__\<close>).
\<close>

record 'a py_hash =
  hash_value :: "'a \<Rightarrow> 64 word"
  hash_None :: "64 word"
  hash_tuple :: "64 word list \<Rightarrow> 64 word"

fun hash_item :: "'a py_hash \<Rightarrow> 'a interval \<Rightarrow> 64 word" where
  "hash_item H PyNone = hash_None H"
| "hash_item H (InternalInterval b e) = hash_tuple H [hash_value H b, hash_value H e]"

text \<open>\<^verbatim>\<open>__hash__\<close>: \<^verbatim>\<open>hash(self._items)\<close>; the cache \<^verbatim>\<open>_hash\<close> does not change the value.\<close>

definition IntervalSet_hash :: "'a py_hash \<Rightarrow> 'a interval list \<Rightarrow> 64 word" where
  "IntervalSet_hash H self = hash_tuple H (map (hash_item H) self)"

text \<open>\<^verbatim>\<open>__eq__\<close>: \<^verbatim>\<open>hash(self) == hash(other)\<close>.\<close>

definition IntervalSet_eq :: "'a py_hash \<Rightarrow> 'a interval list \<Rightarrow> 'a interval list \<Rightarrow> bool" where
  "IntervalSet_eq H self other = (IntervalSet_hash H self = IntervalSet_hash H other)"

text \<open>The linear search of \<^verbatim>\<open>IntervalSet.__contains__\<close> for an Interval instance.\<close>

fun contains_scan :: "'a::linorder interval list \<Rightarrow> 'a interval \<Rightarrow> error + bool" where
  "contains_scan [] other = Inr False"
| "contains_scan (item # r) other =
     (case py_in other item of
        Inl err \<Rightarrow> Inl err
      | Inr True \<Rightarrow> Inr True
      | Inr False \<Rightarrow> contains_scan r other)"

text \<open>
  \<^verbatim>\<open>IntervalSet.__contains__(self, other)\<close> for \<open>other\<close> an interval object. \<^verbatim>\<open>None\<close> is
  not an instance of \<^verbatim>\<open>Interval\<close>, so it takes the branch \<^verbatim>\<open>(self & other) == other\<close>:
  \<^verbatim>\<open>self & None\<close> is \<^verbatim>\<open>self\<close> when \<^verbatim>\<open>self\<close> is empty (and \<^verbatim>\<open>self == None\<close> compares
  hashes), and is \<^verbatim>\<open>None\<close> otherwise (and \<^verbatim>\<open>None == None\<close> is true).
\<close>

fun IntervalSet_contains :: "'a::linorder py_hash \<Rightarrow> 'a interval list \<Rightarrow> 'a interval \<Rightarrow> error + bool" where
  "IntervalSet_contains H self (InternalInterval b e) = contains_scan self (InternalInterval b e)"
| "IntervalSet_contains H self PyNone =
     (if self = [] then Inr (IntervalSet_hash H self = hash_None H) else Inr True)"

text \<open>
  \<^verbatim>\<open>IntervalSet.__contains__(self, other)\<close> for \<open>other\<close> an IntervalSet: the branch
  \<^verbatim>\<open>(self & other) == other\<close>, documented as telling whether \<open>other\<close> is contained
  completely in \<open>self\<close>.
\<close>

definition IntervalSet_contains_set :: "'a::linorder py_hash \<Rightarrow> 'a interval list \<Rightarrow> 'a interval list
    \<Rightarrow> error + bool" where
  "IntervalSet_contains_set H self other =
     (case IntervalSet_and self other of
        Inl err \<Rightarrow> Inl err
      | Inr r \<Rightarrow> Inr (IntervalSet_eq H r other))"

text \<open>
  CPython's \<^verbatim>\<open>hash\<close> on a 64-bit build (version 3.12): an \<^verbatim>\<open>int\<close> is reduced modulo
  \<open>2^61 - 1\<close> with its sign kept and \<open>-1\<close> replaced by \<open>-2\<close>; a tuple is hashed by the
  xxHash-style loop of \<^verbatim>\<open>tuplehash\<close>.
\<close>

definition cpython_hash_int :: "int \<Rightarrow> 64 word" where
  "cpython_hash_int n =
     (let h = (if n < 0 then - ((- n) mod (2 ^ 61 - 1)) else n mod (2 ^ 61 - 1))
      in word_of_int (if h = - 1 then - 2 else h))"

definition cpython_hash_tuple :: "64 word list \<Rightarrow> 64 word" where
  "cpython_hash_tuple lanes =
     (let acc = fold (\<lambda>lane acc. word_rotl 31 (acc + lane * 14029467366897019727) * 11400714785074694791)
                  lanes 2870177450012600261;
          r = acc + xor (of_nat (length lanes)) (xor 2870177450012600261 3527539)
      in if r = - 1 then 1546275796 else r)"

definition cpython_hash :: "int py_hash" where
  "cpython_hash = \<lparr>hash_value = cpython_hash_int, hash_None = 4238894112, hash_tuple = cpython_hash_tuple\<rparr>"

subsection \<open>Well-formed intervals and canonical sequences\<close>

text \<open>What the factory can return: \<^verbatim>\<open>None\<close>, or an instance with \<open>begin \<le> end\<close>.\<close>

fun well_formed :: "'a::linorder interval \<Rightarrow> bool" where
  "well_formed PyNone = True"
| "well_formed (InternalInterval b e) = (b \<le> e)"

fun begin_lt_begin :: "'a::linorder interval \<Rightarrow> 'a interval \<Rightarrow> bool" where
  "begin_lt_begin (InternalInterval b1 e1) (InternalInterval b2 e2) = (b1 < b2)"
| "begin_lt_begin _ _ = False"

fun end_lt_begin :: "'a::linorder interval \<Rightarrow> 'a interval \<Rightarrow> bool" where
  "end_lt_begin (InternalInterval b1 e1) (InternalInterval b2 e2) = (e1 < b2)"
| "end_lt_begin _ _ = False"

text \<open>
  The order of a sorted list of named tuples (lexicographic on begin, then end), and the
  instances among the well-formed objects; both are used to state what the sweep of
  \<^verbatim>\<open>_fill_items\<close> can rely on.
\<close>

fun lex_le :: "'a::linorder interval \<Rightarrow> 'a interval \<Rightarrow> bool" where
  "lex_le (InternalInterval b1 e1) (InternalInterval b2 e2) = (b1 < b2 \<or> (b1 = b2 \<and> e1 \<le> e2))"
| "lex_le _ _ = False"

fun proper :: "'a::linorder interval \<Rightarrow> bool" where
  "proper PyNone = False"
| "proper (InternalInterval b e) = (b \<le> e)"

text \<open>
  The three invariants of an IntervalSet: begins strictly increase along the sequence,
  each member ends strictly before the next one begins, and no member is Empty.
\<close>

definition canonical :: "'a::linorder interval list \<Rightarrow> bool" where
  "canonical items =
     (sorted_wrt begin_lt_begin items \<and> successively end_lt_begin items \<and> EMPTY_INTERVAL \<notin> set items)"

text \<open>
  The IntervalSets a caller can obtain: from the constructor on objects made by the
  factory, and from the four binary operators on sets already obtained.
\<close>

inductive reachable :: "('a::linorder \<Rightarrow> bool) \<Rightarrow> 'a interval list \<Rightarrow> bool" for tr :: "'a \<Rightarrow> bool" where
  construct: "list_all well_formed items \<Longrightarrow> fill_items items = Inr s \<Longrightarrow> reachable tr s"
| intersection: "reachable tr a \<Longrightarrow> reachable tr b \<Longrightarrow> IntervalSet_and a b = Inr s \<Longrightarrow> reachable tr s"
| union: "reachable tr a \<Longrightarrow> reachable tr b \<Longrightarrow> IntervalSet_or a b = Inr s \<Longrightarrow> reachable tr s"
| difference: "reachable tr a \<Longrightarrow> reachable tr b \<Longrightarrow> IntervalSet_sub tr a b = Some (Inr s) \<Longrightarrow> reachable tr s"
| symmetric_difference:
    "reachable tr a \<Longrightarrow> reachable tr b \<Longrightarrow> IntervalSet_xor tr a b = Some (Inr s) \<Longrightarrow> reachable tr s"

declare and_loop.simps [simp del]
declare or_loop.simps [simp del]
declare sub_loop.simps [simp del]

section \<open>Properties of the model\<close>

lemma module_init_None: "module_init = Inr PyNone"
  by (simp add: module_init_def Interval_new_def)

lemma Interval_new_present:
  "Interval_new EMPTY_INTERVAL (Some b) (Some e) = Inr (Interval b e)"
  by (simp add: Interval_new_def Interval_def EMPTY_INTERVAL_def)

lemma truth_iff: "truth x = (x \<noteq> PyNone)"
  by (cases x) (simp_all add: Interval_bool_def EMPTY_INTERVAL_def)

lemma well_formed_Interval: "well_formed (Interval b e)"
  by (auto simp: Interval_def EMPTY_INTERVAL_def)

lemma proper_iff: "proper x = (x \<noteq> PyNone \<and> well_formed x)"
  by (cases x) simp_all

lemma Interval_and_wf: "well_formed a \<Longrightarrow> well_formed b \<Longrightarrow> well_formed (Interval_and a b)"
  by (cases a; cases b) (simp_all add: EMPTY_INTERVAL_def well_formed_Interval)

lemma py_and_wf: "py_and a b = Inr c \<Longrightarrow> well_formed a \<Longrightarrow> well_formed b \<Longrightarrow> well_formed c"
  by (cases a) (auto simp: Interval_and_wf)

lemma Interval_or_proper:
  "Interval_or (InternalInterval b1 e1) (InternalInterval b2 e2) =
     (if e1 < b2 \<or> e2 < b1 then Inl ValueError else Inr (InternalInterval (min b1 b2) (max e1 e2)))"
  by (auto simp: Interval_def min_def max_def)

lemma Interval_or_wf: "Interval_or a b = Inr c \<Longrightarrow> well_formed a \<Longrightarrow> well_formed b \<Longrightarrow> well_formed c"
  by (cases a; cases b) (auto simp: well_formed_Interval split: if_splits)

lemma py_or_wf: "py_or a b = Inr c \<Longrightarrow> well_formed a \<Longrightarrow> well_formed b \<Longrightarrow> well_formed c"
  by (cases a) (auto dest: Interval_or_wf)

lemma Interval_and_proper:
  "b1 \<le> e1 \<Longrightarrow> b2 \<le> e2 \<Longrightarrow> Interval_and (InternalInterval b1 e1) (InternalInterval b2 e2) =
     (if e1 \<le> b2 \<or> e2 \<le> b1 then PyNone else InternalInterval (max b1 b2) (min e1 e2))"
  by (auto simp: Interval_def EMPTY_INTERVAL_def min_def max_def)

subsection \<open>Sorting\<close>

lemma insort_py_length: "insort_py x ys = Inr r \<Longrightarrow> length r = Suc (length ys)"
  by (induction ys arbitrary: r) (auto split: sum.splits bool.splits)

lemma sorted_py_length: "sorted_py xs = Inr ys \<Longrightarrow> length ys = length xs"
  by (induction xs arbitrary: ys) (auto split: sum.splits dest: insort_py_length)

lemma insort_py_None_head: "ys \<noteq> [] \<Longrightarrow> insort_py PyNone ys = Inl TypeError"
  by (cases ys) auto

lemma sorted_py_None:
  "sorted_py xs = Inr ys \<Longrightarrow> PyNone \<in> set xs \<Longrightarrow> xs = [PyNone] \<and> ys = [PyNone]"
proof (induction xs arbitrary: ys)
  case Nil
  then show ?case by simp
next
  case (Cons x xs)
  from Cons.prems(1) obtain zs where zs: "sorted_py xs = Inr zs" and ins: "insort_py x zs = Inr ys"
    by (auto split: sum.splits)
  show ?case
  proof (cases "PyNone \<in> set xs")
    case True
    with Cons.IH[OF zs] have "zs = [PyNone]" by simp
    with ins show ?thesis by (cases x) simp_all
  next
    case False
    with Cons.prems(2) have x: "x = PyNone" by simp
    have "zs = []"
    proof (rule ccontr)
      assume "zs \<noteq> []"
      from insort_py_None_head[OF this] ins x show False by simp
    qed
    with sorted_py_length[OF zs] have "xs = []" by simp
    with x ins \<open>zs = []\<close> show ?thesis by simp
  qed
qed

lemma lex_le_trans: "lex_le x y \<Longrightarrow> lex_le y z \<Longrightarrow> lex_le x z"
  by (cases x; cases y; cases z) auto

lemma insort_py_sorted:
  "x \<noteq> PyNone \<Longrightarrow> PyNone \<notin> set ys \<Longrightarrow> sorted_wrt lex_le ys \<Longrightarrow>
   \<exists>r. insort_py x ys = Inr r \<and> set r = insert x (set ys) \<and> sorted_wrt lex_le r"
proof (induction ys)
  case Nil
  then show ?case by simp
next
  case (Cons y ys)
  obtain bx ex where x: "x = InternalInterval bx ex" using Cons.prems(1) by (cases x) auto
  obtain b e where y: "y = InternalInterval b e" using Cons.prems(2) by (cases y) auto
  show ?case
  proof (cases "b < bx \<or> (b = bx \<and> e < ex)")
    case True
    from Cons obtain r where r: "insort_py x ys = Inr r" "set r = insert x (set ys)" "sorted_wrt lex_le r"
      by auto
    have "lex_le y x" using True x y by auto
    with r Cons.prems(3) True x y show ?thesis by auto
  next
    case False
    then have xy: "lex_le x y" using x y by auto
    have "\<forall>z\<in>set ys. lex_le x z" using Cons.prems(3) xy by (auto intro: lex_le_trans)
    with False x y xy Cons.prems(3) show ?thesis by auto
  qed
qed

lemma sorted_py_sorted:
  "PyNone \<notin> set xs \<Longrightarrow> \<exists>ys. sorted_py xs = Inr ys \<and> set ys = set xs \<and> sorted_wrt lex_le ys"
proof (induction xs)
  case Nil
  then show ?case by simp
next
  case (Cons x xs)
  then obtain zs where zs: "sorted_py xs = Inr zs" "set zs = set xs" "sorted_wrt lex_le zs" by auto
  from Cons.prems zs insort_py_sorted[of x zs] obtain r where
    "insort_py x zs = Inr r" "set r = insert x (set zs)" "sorted_wrt lex_le r" by auto
  with zs show ?case by auto
qed


subsection \<open>The sweep of the constructor\<close>

lemma transp_begin_lt_begin: "transp (begin_lt_begin :: 'a::linorder interval \<Rightarrow> 'a interval \<Rightarrow> bool)"
proof (rule transpI)
  fix x y z :: "'a interval"
  assume "begin_lt_begin x y" "begin_lt_begin y z"
  then show "begin_lt_begin x z" by (cases x; cases y; cases z) auto
qed

lemma successively_conj:
  "successively (\<lambda>x y. P x y \<and> Q x y) xs \<longleftrightarrow> successively P xs \<and> successively Q xs"
  by (induction xs rule: induct_list012) auto

lemma canonical_iff:
  "canonical xs \<longleftrightarrow> successively (\<lambda>x y. begin_lt_begin x y \<and> end_lt_begin x y) xs \<and> PyNone \<notin> set xs"
  unfolding canonical_def successively_conj EMPTY_INTERVAL_def
  using successively_conv_sorted_wrt[OF transp_begin_lt_begin, of xs] by auto

lemma canonical_Nil: "canonical []"
  by (simp add: canonical_def)

lemma canonical_snoc_end:
  "canonical (new @ [InternalInterval b e]) \<Longrightarrow> canonical (new @ [InternalInterval b e'])"
proof -
  assume c: "canonical (new @ [InternalInterval b e])"
  show ?thesis
  proof (cases "new = []")
    case True
    then show ?thesis by (simp add: canonical_iff)
  next
    case False
    with c show ?thesis
      by (cases "last new") (auto simp: canonical_iff successively_append_iff)
  qed
qed

lemma canonical_snoc_next:
  "canonical (new @ [InternalInterval b e]) \<Longrightarrow> b \<le> e \<Longrightarrow> e < b2 \<Longrightarrow>
   canonical ((new @ [InternalInterval b e]) @ [InternalInterval b2 e2])"
  unfolding canonical_iff successively_append_iff[of _ "new @ [InternalInterval b e]"]
  by auto

lemma unify_ok:
  "proper acc \<Longrightarrow> list_all proper rest \<Longrightarrow> sorted_wrt lex_le (acc # rest) \<Longrightarrow>
   canonical (new @ [acc]) \<Longrightarrow> list_all well_formed new \<Longrightarrow>
   \<exists>s. unify new acc rest = Inr s \<and> canonical s \<and> list_all well_formed s"
proof (induction rest arbitrary: new acc)
  case Nil
  then show ?case by (cases acc) (simp_all add: truth_iff)
next
  case (Cons i2 rest)
  obtain b e where acc: "acc = InternalInterval b e" and be: "b \<le> e"
    using Cons.prems(1) by (cases acc) auto
  obtain b2 e2 where i2: "i2 = InternalInterval b2 e2" and be2: "b2 \<le> e2"
    using Cons.prems(2) by (cases i2) auto
  have le: "b < b2 \<or> (b = b2 \<and> e \<le> e2)" using Cons.prems(3) acc i2 by simp
  have rest_p: "list_all proper rest" using Cons.prems(2) by simp
  show ?case
  proof (cases "e < b2")
    case True
    have 1: "sorted_wrt lex_le (i2 # rest)" using Cons.prems(3) by simp
    have 2: "canonical ((new @ [acc]) @ [i2])"
      unfolding acc i2 using canonical_snoc_next Cons.prems(4) be True acc by blast
    have 3: "list_all well_formed (new @ [acc])" using Cons.prems(5) acc be by simp
    from Cons.IH[OF _ rest_p 1 2 3] Cons.prems(2)
    obtain s where "unify (new @ [acc]) i2 rest = Inr s" "canonical s" "list_all well_formed s"
      by auto
    then show ?thesis using True acc i2 by simp
  next
    case False
    have touch: "(if truth (Interval_and acc i2) then Inr True else end_eq_begin acc i2) = Inr True"
      unfolding acc i2 Interval_and_proper[OF be be2] using le False be2
      by (auto simp: truth_iff)
    have nogap: "\<not> (e < b2 \<or> e2 < b)" using False le be2 by auto
    define u where "u = InternalInterval b (max e e2)"
    have un: "py_or acc i2 = Inr u"
      unfolding acc i2 u_def py_or.simps Interval_or_proper using nogap le by (auto simp: min_def)
    have 0: "proper u" unfolding u_def using be by (auto simp: max_def)
    have "\<forall>r\<in>set rest. lex_le u r"
    proof
      fix r assume r: "r \<in> set rest"
      then have "lex_le acc r" "lex_le i2 r" using Cons.prems(3) by auto
      then show "lex_le u r" unfolding acc i2 u_def using le by (cases r) auto
    qed
    then have 1: "sorted_wrt lex_le (u # rest)" using Cons.prems(3) by simp
    have 2: "canonical (new @ [u])"
      unfolding u_def using canonical_snoc_end Cons.prems(4) acc by blast
    from Cons.IH[OF 0 rest_p 1 2 Cons.prems(5)]
    obtain s where "unify new u rest = Inr s" "canonical s" "list_all well_formed s" by auto
    moreover have "call_is_before_than acc i2 = Inr False" unfolding acc i2 using False by simp
    moreover have "py_and acc i2 = Inr (Interval_and acc i2)" unfolding acc by simp
    ultimately show ?thesis using touch un by simp
  qed
qed


lemma insort_py_error: "insort_py x ys = Inl err \<Longrightarrow> err = TypeError"
proof (induction ys)
  case Nil
  then show ?case by simp
next
  case (Cons y ys)
  then show ?case
    by (cases y; cases x) (auto split: sum.splits bool.splits)
qed

lemma sorted_py_error: "sorted_py xs = Inl err \<Longrightarrow> err = TypeError"
  by (induction xs arbitrary: err) (auto split: sum.splits dest: insort_py_error)

text \<open>Without an Empty entry the constructor succeeds, and the result is canonical.\<close>

lemma fill_items_succeeds:
  assumes wf: "list_all well_formed items" and no_empty: "PyNone \<notin> set items"
  shows "\<exists>s. fill_items items = Inr s \<and> canonical s \<and> list_all well_formed s"
proof (cases "items = []")
  case True
  then show ?thesis by (simp add: fill_items_def canonical_Nil)
next
  case ne: False
  from sorted_py_sorted[OF no_empty] obtain ys where
    ys: "sorted_py items = Inr ys" "set ys = set items" "sorted_wrt lex_le ys" by blast
  from ys(2) ne obtain y rest where yr: "ys = y # rest" by (cases ys) auto
  have all_p: "list_all proper ys"
    using wf no_empty ys(2) by (auto simp: list_all_iff proper_iff)
  then have py: "proper y" and pr: "list_all proper rest" using yr by simp_all
  have 1: "canonical ([] @ [y])" using py by (cases y) (simp_all add: canonical_iff)
  from unify_ok[OF py pr _ 1] ys(3) yr
  obtain s where s: "unify [] y rest = Inr s" "canonical s" "list_all well_formed s" by auto
  have "first_nonempty PyNone ys = (y, rest)" using yr py by (cases y) (simp_all add: truth_iff)
  with s ys(1) ne show ?thesis by (simp add: fill_items_def)
qed

text \<open>
  With an Empty entry, sorting raises TypeError unless the entry is the only item; then
  the result is the empty sequence.
\<close>

lemma fill_items_cases:
  assumes wf: "list_all well_formed items"
  shows "fill_items items = Inl TypeError \<or>
         (\<exists>s. fill_items items = Inr s \<and> canonical s \<and> list_all well_formed s)"
proof (cases "PyNone \<in> set items")
  case True
  then have ne: "items \<noteq> []" by auto
  show ?thesis
  proof (cases "sorted_py items")
    case (Inl err)
    with sorted_py_error[OF Inl] ne show ?thesis by (simp add: fill_items_def)
  next
    case (Inr ys)
    from sorted_py_None[OF Inr True] have "items = [PyNone]" "ys = [PyNone]" by simp_all
    with Inr show ?thesis by (simp add: fill_items_def canonical_Nil)
  qed
next
  case False
  from fill_items_succeeds[OF wf False] show ?thesis by blast
qed

lemma fill_items_ok:
  "list_all well_formed items \<Longrightarrow> fill_items items = Inr s \<Longrightarrow> canonical s \<and> list_all well_formed s"
  using fill_items_cases[of items] by auto

subsection \<open>The loops of the set operators keep intervals well formed\<close>

lemma sum_bool_cases:
  obtains (err) e where "x = Inl e" | (yes) "x = Inr True" | (no) "x = Inr False"
  by (cases x) auto

lemma and_loop_wf:
  "and_loop new_items i1 it1 i2 it2 = Inr r \<Longrightarrow> list_all well_formed new_items \<Longrightarrow>
   well_formed i1 \<Longrightarrow> list_all well_formed it1 \<Longrightarrow> well_formed i2 \<Longrightarrow> list_all well_formed it2 \<Longrightarrow>
   list_all well_formed r"
proof (induction new_items i1 it1 i2 it2 arbitrary: r rule: and_loop.induct)
  case (1 new_items i1 it1 i2 it2)
  note step = "1.prems"(1)[unfolded and_loop.simps[of new_items i1 it1 i2 it2]]
  note wf = "1.prems"(2-)
  show ?case
  proof (cases "call_is_before_than i1 i2" rule: sum_bool_cases)
    case (err e)
    with step show ?thesis by simp
  next
    case yes
    show ?thesis
    proof (cases it1)
      case Nil
      with step yes wf show ?thesis by simp
    next
      case (Cons x xs)
      with step yes have "and_loop new_items x xs i2 it2 = Inr r" by simp
      from "1.IH"(1)[OF yes refl Cons this] wf Cons show ?thesis by simp
    qed
  next
    case no
    show ?thesis
    proof (cases "call_is_before_than i2 i1" rule: sum_bool_cases)
      case (err e)
      with step no show ?thesis by simp
    next
      case yes
      show ?thesis
      proof (cases it2)
        case Nil
        with step no yes wf show ?thesis by simp
      next
        case (Cons x xs)
        with step no yes have "and_loop new_items i1 it1 x xs = Inr r" by simp
        from "1.IH"(2)[OF no refl yes refl Cons this] wf Cons show ?thesis by simp
      qed
    next
      case no2: no
      show ?thesis
      proof (cases "py_and i1 i2")
        case (Inl e)
        with step no no2 show ?thesis by simp
      next
        case c3: (Inr i3)
        define n where "n = (if truth i3 then new_items @ [i3] else new_items)"
        have wn: "list_all well_formed n"
          unfolding n_def using wf py_and_wf[OF c3] by simp
        show ?thesis
        proof (cases "end_lt_end i1 i2" rule: sum_bool_cases)
          case (err e)
          with step no no2 c3 show ?thesis by simp
        next
          case yes
          show ?thesis
          proof (cases it1)
            case Nil
            with step no no2 c3 yes have "r = n" by (simp add: n_def)
            with wn show ?thesis by simp
          next
            case (Cons x xs)
            with step no no2 c3 yes have "and_loop n x xs i2 it2 = Inr r"
              by (simp add: n_def)
            from "1.IH"(3)[OF no refl no2 refl c3 yes refl Cons this[unfolded n_def]] wn wf Cons
            show ?thesis by (simp add: n_def)
          qed
        next
          case no4: no
          show ?thesis
          proof (cases it2)
            case Nil
            with step no no2 c3 no4 have "r = n" by (simp add: n_def)
            with wn show ?thesis by simp
          next
            case (Cons x xs)
            with step no no2 c3 no4 have "and_loop n i1 it1 x xs = Inr r"
              by (simp add: n_def)
            from "1.IH"(4)[OF no refl no2 refl c3 no4 refl Cons this[unfolded n_def]] wn wf Cons
            show ?thesis by (simp add: n_def)
          qed
        qed
      qed
    qed
  qed
qed

lemma or_loop_wf:
  "or_loop new_items i1 it1 i2 it2 = Inr r \<Longrightarrow> list_all well_formed new_items \<Longrightarrow>
   well_formed i1 \<Longrightarrow> list_all well_formed it1 \<Longrightarrow> well_formed i2 \<Longrightarrow> list_all well_formed it2 \<Longrightarrow>
   list_all well_formed r"
proof (induction new_items i1 it1 i2 it2 arbitrary: r rule: or_loop.induct)
  case (1 new_items i1 it1 i2 it2)
  note step = "1.prems"(1)[unfolded or_loop.simps[of new_items i1 it1 i2 it2]]
  note wf = "1.prems"(2-)
  show ?case
  proof (cases "call_is_before_than i1 i2" rule: sum_bool_cases)
    case (err e)
    with step show ?thesis by simp
  next
    case yes
    show ?thesis
    proof (cases it1)
      case Nil
      with step yes wf show ?thesis by auto
    next
      case (Cons x xs)
      with step yes have "or_loop (new_items @ [i1]) x xs i2 it2 = Inr r" by simp
      from "1.IH"(1)[OF yes refl Cons this] wf Cons show ?thesis by simp
    qed
  next
    case no
    show ?thesis
    proof (cases "call_is_before_than i2 i1" rule: sum_bool_cases)
      case (err e)
      with step no show ?thesis by simp
    next
      case yes
      show ?thesis
      proof (cases it2)
        case Nil
        with step no yes wf show ?thesis by auto
      next
        case (Cons x xs)
        with step no yes have "or_loop (new_items @ [i2]) i1 it1 x xs = Inr r" by simp
        from "1.IH"(2)[OF no refl yes refl Cons this] wf Cons show ?thesis by simp
      qed
    next
      case no2: no
      show ?thesis
      proof (cases "py_or i1 i2")
        case (Inl e)
        with step no no2 show ?thesis by simp
      next
        case c3: (Inr u)
        have wu: "well_formed u" using py_or_wf[OF c3] wf by simp
        show ?thesis
        proof (cases it1)
          case Nil
          with step no no2 c3 wu wf show ?thesis by auto
        next
          case c1: (Cons x xs)
          show ?thesis
          proof (cases it2)
            case Nil
            with step no no2 c3 c1 wu wf show ?thesis by auto
          next
            case (Cons y ys)
            with step no no2 c3 c1 have "or_loop (new_items @ [u]) x xs y ys = Inr r" by simp
            from "1.IH"(3)[OF no refl no2 refl c3 c1 Cons this] wu wf c1 Cons show ?thesis by simp
          qed
        qed
      qed
    qed
  qed
qed


lemma flush_wf: "list_all well_formed new_items \<Longrightarrow> list_all well_formed (flush tr new_items b e)"
  by (simp add: flush_def well_formed_Interval)

lemma advance_cases:
  assumes "(case it of [] \<Rightarrow> Some (Inr n) | PyNone # r \<Rightarrow> Some (Inl TypeError)
            | InternalInterval b e # r \<Rightarrow> f b e r) = Some (Inr res)"
  obtains (stop) "it = []" "res = n"
  | (got) b e r where "it = InternalInterval b e # r" "f b e r = Some (Inr res)"
  using assms by (auto split: list.splits interval.splits)

lemma sub_loop_wf:
  "sub_loop tr new_items b1 e1 it1 b2 e2 it2 = Some (Inr r) \<Longrightarrow> list_all well_formed new_items \<Longrightarrow>
   list_all well_formed r"
proof (induction tr new_items b1 e1 it1 b2 e2 it2 arbitrary: r rule: sub_loop.induct)
  case (1 tr new_items b1 e1 it1 b2 e2 it2)
  note step = "1.prems"(1)[unfolded sub_loop.simps[of tr new_items b1 e1 it1 b2 e2 it2]]
  note wf = "1.prems"(2)
  have w1: "list_all well_formed (new_items @ [Interval b1 e1])"
    and w2: "list_all well_formed (new_items @ [Interval b1 b2])"
    using wf by (simp_all add: well_formed_Interval)
  consider (c1) "e1 \<le> b1"
    | (c2) "\<not> e1 \<le> b1" "e1 \<le> b2"
    | (c3) "\<not> e1 \<le> b1" "\<not> e1 \<le> b2" "e2 \<le> b1"
    | (c4) "\<not> e1 \<le> b1" "\<not> e1 \<le> b2" "\<not> e2 \<le> b1" "b1 < b2 \<and> b2 \<le> e1 \<and> e1 \<le> e2"
    | (c5) "\<not> e1 \<le> b1" "\<not> e1 \<le> b2" "\<not> e2 \<le> b1" "\<not> (b1 < b2 \<and> b2 \<le> e1 \<and> e1 \<le> e2)"
           "b2 \<le> b1 \<and> b1 \<le> e2 \<and> e2 < e1"
    | (c6) "\<not> e1 \<le> b1" "\<not> e1 \<le> b2" "\<not> e2 \<le> b1" "\<not> (b1 < b2 \<and> b2 \<le> e1 \<and> e1 \<le> e2)"
           "\<not> (b2 \<le> b1 \<and> b1 \<le> e2 \<and> e2 < e1)" "b2 \<le> b1 \<and> b1 \<le> e1 \<and> e1 \<le> e2"
    | (c7) "\<not> e1 \<le> b1" "\<not> e1 \<le> b2" "\<not> e2 \<le> b1" "\<not> (b1 < b2 \<and> b2 \<le> e1 \<and> e1 \<le> e2)"
           "\<not> (b2 \<le> b1 \<and> b1 \<le> e2 \<and> e2 < e1)" "\<not> (b2 \<le> b1 \<and> b1 \<le> e1 \<and> e1 \<le> e2)"
           "b1 < b2 \<and> b2 \<le> e2 \<and> e2 \<le> e1"
    | (c8) "\<not> e1 \<le> b1" "\<not> e1 \<le> b2" "\<not> e2 \<le> b1" "\<not> (b1 < b2 \<and> b2 \<le> e1 \<and> e1 \<le> e2)"
           "\<not> (b2 \<le> b1 \<and> b1 \<le> e2 \<and> e2 < e1)" "\<not> (b2 \<le> b1 \<and> b1 \<le> e1 \<and> e1 \<le> e2)"
           "\<not> (b1 < b2 \<and> b2 \<le> e2 \<and> e2 \<le> e1)"
    by blast
  then show ?case
  proof cases
    case c1
    note s = step[unfolded if_P[OF c1]]
    from s show ?thesis
    proof (cases rule: advance_cases)
      case stop
      with wf show ?thesis by simp
    next
      case (got b e xs)
      from "1.IH"(1)[OF c1 got(1) refl got(2) wf] show ?thesis .
    qed
  next
    case c2
    note s = step[unfolded if_not_P[OF c2(1)] if_P[OF c2(2)]]
    from s show ?thesis
    proof (cases rule: advance_cases)
      case stop
      with w1 show ?thesis by simp
    next
      case (got b e xs)
      from "1.IH"(2)[OF c2 got(1) refl got(2) w1] show ?thesis .
    qed
  next
    case c3
    note s = step[unfolded if_not_P[OF c3(1)] if_not_P[OF c3(2)] if_P[OF c3(3)]]
    from s show ?thesis
    proof (cases rule: advance_cases)
      case stop
      with flush_wf[OF wf] show ?thesis by simp
    next
      case (got b e xs)
      from "1.IH"(3)[OF c3 got(1) refl got(2) wf] show ?thesis .
    qed
  next
    case c4
    note s = step[unfolded if_not_P[OF c4(1)] if_not_P[OF c4(2)] if_not_P[OF c4(3)] if_P[OF c4(4)]]
    from s show ?thesis
    proof (cases rule: advance_cases)
      case stop
      with w2 show ?thesis by simp
    next
      case (got b e xs)
      from "1.IH"(4)[OF c4 got(1) refl got(2) w2] show ?thesis .
    qed
  next
    case c5
    note s = step[unfolded if_not_P[OF c5(1)] if_not_P[OF c5(2)] if_not_P[OF c5(3)] if_not_P[OF c5(4)] if_P[OF c5(5)]]
    from s show ?thesis
    proof (cases rule: advance_cases)
      case stop
      with flush_wf[OF wf] show ?thesis by simp
    next
      case (got b e xs)
      from "1.IH"(5)[OF c5 got(1) refl got(2) wf] show ?thesis .
    qed
  next
    case c6
    note s = step[unfolded if_not_P[OF c6(1)] if_not_P[OF c6(2)] if_not_P[OF c6(3)] if_not_P[OF c6(4)] if_not_P[OF c6(5)] if_P[OF c6(6)]]
    from s show ?thesis
    proof (cases rule: advance_cases)
      case stop
      with wf show ?thesis by simp
    next
      case (got b e xs)
      from "1.IH"(6)[OF c6 got(1) refl got(2) wf] show ?thesis .
    qed
  next
    case c7
    note s = step[unfolded if_not_P[OF c7(1)] if_not_P[OF c7(2)] if_not_P[OF c7(3)] if_not_P[OF c7(4)] if_not_P[OF c7(5)] if_not_P[OF c7(6)] if_P[OF c7(7)]]
    from "1.IH"(7)[OF c7 s w2] show ?thesis .
  next
    case c8
    note s = step[unfolded if_not_P[OF c8(1)] if_not_P[OF c8(2)] if_not_P[OF c8(3)] if_not_P[OF c8(4)] if_not_P[OF c8(5)] if_not_P[OF c8(6)] if_not_P[OF c8(7)]]
    from s show ?thesis by simp
  qed
qed


lemma list_all_hd_tl: "xs \<noteq> [] \<Longrightarrow> list_all P xs \<Longrightarrow> P (hd xs) \<and> list_all P (tl xs)"
  by (cases xs) simp_all

lemma IntervalSet_and_inv:
  assumes "IntervalSet_and a b = Inr s"
    and a: "canonical a \<and> list_all well_formed a" and b: "canonical b \<and> list_all well_formed b"
  shows "canonical s \<and> list_all well_formed s"
proof (cases "a = [] \<or> b = []")
  case True
  with assms show ?thesis by (auto simp: IntervalSet_and_def split: if_splits)
next
  case False
  with assms(1) obtain n where n: "and_loop [] (hd a) (tl a) (hd b) (tl b) = Inr n"
    and f: "fill_items n = Inr s"
    by (auto simp: IntervalSet_and_def split: sum.splits)
  from False a b have "well_formed (hd a)" "list_all well_formed (tl a)"
    "well_formed (hd b)" "list_all well_formed (tl b)"
    by (simp_all add: list_all_hd_tl)
  with and_loop_wf[OF n] have "list_all well_formed n" by simp
  from fill_items_ok[OF this f] show ?thesis .
qed

lemma IntervalSet_or_inv:
  assumes "IntervalSet_or a b = Inr s"
    and a: "canonical a \<and> list_all well_formed a" and b: "canonical b \<and> list_all well_formed b"
  shows "canonical s \<and> list_all well_formed s"
proof (cases "a = [] \<or> b = []")
  case True
  with assms show ?thesis by (auto simp: IntervalSet_or_def split: if_splits)
next
  case False
  with assms(1) obtain n where n: "or_loop [] (hd a) (tl a) (hd b) (tl b) = Inr n"
    and f: "fill_items n = Inr s"
    by (auto simp: IntervalSet_or_def split: sum.splits)
  from False a b have "well_formed (hd a)" "list_all well_formed (tl a)"
    "well_formed (hd b)" "list_all well_formed (tl b)"
    by (simp_all add: list_all_hd_tl)
  with or_loop_wf[OF n] have "list_all well_formed n" by simp
  from fill_items_ok[OF this f] show ?thesis .
qed

lemma IntervalSet_sub_inv:
  assumes "IntervalSet_sub tr a b = Some (Inr s)"
    and a: "canonical a \<and> list_all well_formed a"
  shows "canonical s \<and> list_all well_formed s"
proof (cases "a = [] \<or> b = []")
  case True
  with assms show ?thesis by (auto simp: IntervalSet_sub_def split: if_splits)
next
  case False
  with assms(1) obtain b1 e1 b2 e2 n where
    n: "sub_loop tr [] b1 e1 (tl a) b2 e2 (tl b) = Some (Inr n)" and f: "fill_items n = Inr s"
    by (auto simp: IntervalSet_sub_def split: interval.splits option.splits sum.splits)
  from sub_loop_wf[OF n] have "list_all well_formed n" by simp
  from fill_items_ok[OF this f] show ?thesis .
qed

lemma IntervalSet_xor_inv:
  assumes "IntervalSet_xor tr a b = Some (Inr s)"
    and a: "canonical a \<and> list_all well_formed a" and b: "canonical b \<and> list_all well_formed b"
  shows "canonical s \<and> list_all well_formed s"
proof -
  from assms(1) obtain u n where u: "IntervalSet_or a b = Inr u"
    and "IntervalSet_and a b = Inr n" and d: "IntervalSet_sub tr u n = Some (Inr s)"
    by (auto simp: IntervalSet_xor_def split: sum.splits)
  from IntervalSet_sub_inv[OF d IntervalSet_or_inv[OF u a b]] show ?thesis .
qed

lemma reachable_inv: "reachable tr s \<Longrightarrow> canonical s \<and> list_all well_formed s"
proof (induction rule: reachable.induct)
  case (construct items s)
  then show ?case by (rule fill_items_ok)
next
  case (intersection a b s)
  from IntervalSet_and_inv[OF intersection(3) intersection(4) intersection(5)] show ?case .
next
  case (union a b s)
  from IntervalSet_or_inv[OF union(3) union(4) union(5)] show ?case .
next
  case (difference a b s)
  from IntervalSet_sub_inv[OF difference(3) difference(4)] show ?case .
next
  case (symmetric_difference a b s)
  from IntervalSet_xor_inv[OF symmetric_difference(3) symmetric_difference(4) symmetric_difference(5)]
  show ?case .
qed

subsection \<open>The operators on instances, and the Empty interval in the constructor\<close>

lemma Interval_and_commute: "Interval_and a b = Interval_and b a"
  by (cases a; cases b) (auto simp: Interval_def)

lemma Interval_and_idem: "b < e \<Longrightarrow> Interval_and (InternalInterval b e) (InternalInterval b e) = InternalInterval b e"
  by auto

lemma Interval_and_degenerate: "Interval_and (InternalInterval x x) (InternalInterval x x) = EMPTY_INTERVAL"
  by simp

lemma Interval_and_touching:
  "e1 \<le> b2 \<Longrightarrow> Interval_and (InternalInterval b1 e1) (InternalInterval b2 e2) = EMPTY_INTERVAL"
  by simp

lemma py_and_instance_commute:
  "py_and (InternalInterval b1 e1) (InternalInterval b2 e2) = py_and (InternalInterval b2 e2) (InternalInterval b1 e1)"
  using Interval_and_commute[of "InternalInterval b1 e1" "InternalInterval b2 e2"] by simp

lemma Interval_or_raises_iff:
  "Interval_or a b = Inl ValueError \<longleftrightarrow>
     a = EMPTY_INTERVAL \<or> b = EMPTY_INTERVAL \<or>
     (\<exists>b1 e1 b2 e2. a = InternalInterval b1 e1 \<and> b = InternalInterval b2 e2 \<and> (e1 < b2 \<or> e2 < b1))"
  by (cases a; cases b) (auto simp: EMPTY_INTERVAL_def)

lemma Interval_or_commute: "Interval_or a b = Interval_or b a"
proof (cases a)
  case PyNone
  then show ?thesis by (cases b) simp_all
next
  case a: (InternalInterval b1 e1)
  show ?thesis
  proof (cases b)
    case PyNone
    with a show ?thesis by simp
  next
    case (InternalInterval b2 e2)
    with a show ?thesis
      unfolding a InternalInterval Interval_or_proper by (auto simp: min.commute max.commute)
  qed
qed

lemma py_or_instance:
  "py_or (InternalInterval b1 e1) other =
     (case other of
        PyNone \<Rightarrow> Inl ValueError
      | InternalInterval b2 e2 \<Rightarrow>
          if e1 < b2 \<or> e2 < b1 then Inl ValueError else Inr (InternalInterval (min b1 b2) (max e1 e2)))"
proof (cases other)
  case PyNone
  then show ?thesis by simp
next
  case (InternalInterval b2 e2)
  then show ?thesis unfolding InternalInterval py_or.simps Interval_or_proper by simp
qed

lemma fill_items_with_empty:
  assumes "PyNone \<in> set items" "2 \<le> length items"
  shows "fill_items items = Inl TypeError"
proof (cases "sorted_py items")
  case (Inl err)
  with sorted_py_error[OF Inl] assms(2) show ?thesis by (auto simp: fill_items_def)
next
  case (Inr ys)
  from sorted_py_None[OF Inr assms(1)] assms(2) show ?thesis by simp
qed

lemma IntervalSet_contains_empty:
  "s \<noteq> [] \<Longrightarrow> IntervalSet_contains H s EMPTY_INTERVAL = Inr True"
  by (simp add: EMPTY_INTERVAL_def)

text \<open>
  On sets of well-formed intervals one test of the body of the loop of \<^verbatim>\<open>__sub__\<close> always
  applies, so the difference returns.
\<close>

lemma sub_loop_returns:
  "b2 \<le> e2 \<Longrightarrow> list_all well_formed it2 \<Longrightarrow> sub_loop tr new_items b1 e1 it1 b2 e2 it2 \<noteq> None"
proof (induction tr new_items b1 e1 it1 b2 e2 it2 rule: sub_loop.induct)
  case (1 tr new_items b1 e1 it1 b2 e2 it2)
  note le = "1.prems"(1) and wf = "1.prems"(2)
  have adv1: "\<And>n g. (\<And>b e r. it1 = InternalInterval b e # r \<Longrightarrow> g b e r \<noteq> None) \<Longrightarrow>
      (case it1 of [] \<Rightarrow> Some (Inr n) | PyNone # r \<Rightarrow> Some (Inl TypeError)
       | InternalInterval b e # r \<Rightarrow> g b e r) \<noteq> None"
    by (auto split: list.splits interval.splits)
  have adv2: "\<And>n g. (\<And>b e r. it2 = InternalInterval b e # r \<Longrightarrow> b \<le> e \<Longrightarrow> list_all well_formed r \<Longrightarrow> g b e r \<noteq> None) \<Longrightarrow>
      (case it2 of [] \<Rightarrow> Some (Inr n) | PyNone # r \<Rightarrow> Some (Inl TypeError)
       | InternalInterval b e # r \<Rightarrow> g b e r) \<noteq> None"
    using wf by (auto split: list.splits interval.splits)
  have key: "e1 \<le> b1 \<or> e1 \<le> b2 \<or> e2 \<le> b1 \<or> (b1 < b2 \<and> b2 \<le> e1 \<and> e1 \<le> e2)
      \<or> (b2 \<le> b1 \<and> b1 \<le> e2 \<and> e2 < e1) \<or> (b2 \<le> b1 \<and> b1 \<le> e1 \<and> e1 \<le> e2)
      \<or> (b1 < b2 \<and> b2 \<le> e2 \<and> e2 \<le> e1)"
    using le by (auto simp: not_le)
  consider (c1) "e1 \<le> b1"
    | (c2) "\<not> e1 \<le> b1" "e1 \<le> b2"
    | (c3) "\<not> e1 \<le> b1" "\<not> e1 \<le> b2" "e2 \<le> b1"
    | (c4) "\<not> e1 \<le> b1" "\<not> e1 \<le> b2" "\<not> e2 \<le> b1" "b1 < b2 \<and> b2 \<le> e1 \<and> e1 \<le> e2"
    | (c5) "\<not> e1 \<le> b1" "\<not> e1 \<le> b2" "\<not> e2 \<le> b1" "\<not> (b1 < b2 \<and> b2 \<le> e1 \<and> e1 \<le> e2)"
           "b2 \<le> b1 \<and> b1 \<le> e2 \<and> e2 < e1"
    | (c6) "\<not> e1 \<le> b1" "\<not> e1 \<le> b2" "\<not> e2 \<le> b1" "\<not> (b1 < b2 \<and> b2 \<le> e1 \<and> e1 \<le> e2)"
           "\<not> (b2 \<le> b1 \<and> b1 \<le> e2 \<and> e2 < e1)" "b2 \<le> b1 \<and> b1 \<le> e1 \<and> e1 \<le> e2"
    | (c7) "\<not> e1 \<le> b1" "\<not> e1 \<le> b2" "\<not> e2 \<le> b1" "\<not> (b1 < b2 \<and> b2 \<le> e1 \<and> e1 \<le> e2)"
           "\<not> (b2 \<le> b1 \<and> b1 \<le> e2 \<and> e2 < e1)" "\<not> (b2 \<le> b1 \<and> b1 \<le> e1 \<and> e1 \<le> e2)"
           "b1 < b2 \<and> b2 \<le> e2 \<and> e2 \<le> e1"
    using key by blast
  then show ?case
  proof cases
    case c1
    show ?thesis
      unfolding sub_loop.simps[of tr new_items b1 e1 it1 b2 e2 it2] if_P[OF c1]
      by (rule adv1) (rule "1.IH"(1)[OF c1 _ refl le wf])
  next
    case c2
    show ?thesis
      unfolding sub_loop.simps[of tr new_items b1 e1 it1 b2 e2 it2]
        if_not_P[OF c2(1)] if_P[OF c2(2)]
      by (rule adv1) (rule "1.IH"(2)[OF c2 _ refl le wf])
  next
    case c3
    show ?thesis
      unfolding sub_loop.simps[of tr new_items b1 e1 it1 b2 e2 it2]
        if_not_P[OF c3(1)] if_not_P[OF c3(2)] if_P[OF c3(3)]
      by (rule adv2) (rule "1.IH"(3)[OF c3 _ refl])
  next
    case c4
    show ?thesis
      unfolding sub_loop.simps[of tr new_items b1 e1 it1 b2 e2 it2]
        if_not_P[OF c4(1)] if_not_P[OF c4(2)] if_not_P[OF c4(3)] if_P[OF c4(4)]
      by (rule adv1) (rule "1.IH"(4)[OF c4 _ refl le wf])
  next
    case c5
    show ?thesis
      unfolding sub_loop.simps[of tr new_items b1 e1 it1 b2 e2 it2]
        if_not_P[OF c5(1)] if_not_P[OF c5(2)] if_not_P[OF c5(3)] if_not_P[OF c5(4)] if_P[OF c5(5)]
      by (rule adv2) (rule "1.IH"(5)[OF c5 _ refl])
  next
    case c6
    show ?thesis
      unfolding sub_loop.simps[of tr new_items b1 e1 it1 b2 e2 it2]
        if_not_P[OF c6(1)] if_not_P[OF c6(2)] if_not_P[OF c6(3)] if_not_P[OF c6(4)]
        if_not_P[OF c6(5)] if_P[OF c6(6)]
      by (rule adv1) (rule "1.IH"(6)[OF c6 _ refl le wf])
  next
    case c7
    show ?thesis
      unfolding sub_loop.simps[of tr new_items b1 e1 it1 b2 e2 it2]
        if_not_P[OF c7(1)] if_not_P[OF c7(2)] if_not_P[OF c7(3)] if_not_P[OF c7(4)]
        if_not_P[OF c7(5)] if_not_P[OF c7(6)] if_P[OF c7(7)]
      by (rule "1.IH"(7)[OF c7 le wf])
  qed
qed

lemma IntervalSet_sub_returns:
  "list_all well_formed other \<Longrightarrow> IntervalSet_sub tr self other \<noteq> None"
proof (cases "self = [] \<or> other = []")
  case True
  then show ?thesis by (auto simp: IntervalSet_sub_def)
next
  case False
  assume wf: "list_all well_formed other"
  from False obtain y ys where o: "other = y # ys" by (cases other) auto
  show ?thesis
  proof (cases "hd self")
    case PyNone
    with False show ?thesis by (simp add: IntervalSet_sub_def)
  next
    case s: (InternalInterval b1 e1)
    show ?thesis
    proof (cases y)
      case PyNone
      with False o s show ?thesis by (simp add: IntervalSet_sub_def)
    next
      case (InternalInterval b2 e2)
      with wf o have "b2 \<le> e2" "list_all well_formed ys" by simp_all
      from sub_loop_returns[OF this] have "sub_loop tr [] b1 e1 (tl self) b2 e2 ys \<noteq> None" .
      with False o s InternalInterval show ?thesis
        by (auto simp: IntervalSet_sub_def split: option.splits sum.splits)
    qed
  qed
qed

section \<open>The claims\<close>

text \<open>
  C1. The claim: the difference \<open>A - B\<close> stops when either operand is exhausted and then
  emits every part of \<open>A\<close> not yet consumed, the intervals of \<open>A\<close> not yet visited
  included. The code appends only the piece in flight: for \<open>A = {[1,2], [5,6]}\<close> and
  \<open>B = {[0,1]}\<close> (both canonical, as built by the constructor) the loop is left by
  \<^verbatim>\<open>next(it2)\<close> with \<open>[5,6]\<close> unvisited, and the result is \<open>{[1,2]}\<close>.
\<close>

theorem sub_drops_unvisited_tail:
  "fill_items [Interval 1 2, Interval 5 6] = Inr [InternalInterval (1::int) 2, InternalInterval 5 6]
   \<and> fill_items [Interval 0 1] = Inr [InternalInterval (0::int) 1]
   \<and> IntervalSet_sub (\<lambda>n. n \<noteq> 0) [InternalInterval (1::int) 2, InternalInterval 5 6] [InternalInterval 0 1]
       = Some (Inr [InternalInterval 1 2])"
  by code_simp

text \<open>
  C2. The claim: constructing an IntervalSet from any collection of intervals, Empty
  entries included, succeeds and ignores the Empty entries. The code sorts the items
  first, and \<^verbatim>\<open>sorted\<close> raises TypeError as soon as the Empty interval (the \<^verbatim>\<open>None\<close>
  object) is compared with another item.
\<close>

theorem fill_items_empty_entry_raises:
  "fill_items [EMPTY_INTERVAL, Interval (1::int) 2] = Inl TypeError"
  by code_simp

text \<open>
  C3. The claim: \<open>Empty < x\<close> holds, without failing, for every non-empty interval \<open>x\<close>.
  In the code the comparison of the Empty interval with \<^verbatim>\<open>Interval(1, 2)\<close> raises
  TypeError.
\<close>

theorem empty_lt_raises:
  "py_lt EMPTY_INTERVAL (Interval (1::int) 2) = Inl TypeError"
  by code_simp

text \<open>
  C4. The claim: \<^verbatim>\<open>Interval(x, x)\<close> behaves as Empty in intersection and union, so
  \<^verbatim>\<open>Interval(x, x) & b\<close> is Empty and \<^verbatim>\<open>Interval(x, x) | b\<close> raises, for every \<open>b\<close>.
  In the code \<^verbatim>\<open>Interval(5, 5) & Interval(1, 10)\<close> is the true (non-Empty) object
  \<^verbatim>\<open>Interval(5, 5)\<close>, and \<^verbatim>\<open>Interval(5, 5) | Interval(1, 10)\<close> returns \<^verbatim>\<open>Interval(1, 10)\<close>.
\<close>

theorem degenerate_interval_not_empty:
  "py_and (Interval (5::int) 5) (Interval 1 10) = Inr (InternalInterval 5 5)
   \<and> truth (InternalInterval (5::int) 5)
   \<and> py_or (Interval (5::int) 5) (Interval 1 10) = Inr (InternalInterval 1 10)"
  by code_simp

text \<open>
  C5. The claim: two IntervalSets compare equal if and only if their sequences of
  members are identical. The code compares the hashes of the two tuples, and under
  CPython \<^verbatim>\<open>hash(-1) == hash(-2)\<close>: the sets \<^verbatim>\<open>IntervalSet(Interval(-1, 5))\<close> and
  \<^verbatim>\<open>IntervalSet(Interval(-2, 5))\<close> have different members and compare equal. Through
  the same comparison the second set is reported as contained completely in the first,
  although the search for its one member \<^verbatim>\<open>Interval(-2, 5)\<close> in the first set answers
  false.
\<close>

theorem IntervalSet_eq_not_structural:
  "fill_items [Interval (- 1) 5] = Inr [InternalInterval (- 1 :: int) 5]
   \<and> fill_items [Interval (- 2) 5] = Inr [InternalInterval (- 2 :: int) 5]
   \<and> IntervalSet_eq cpython_hash [InternalInterval (- 1) 5] [InternalInterval (- 2) 5]
   \<and> [InternalInterval (- 1 :: int) 5] \<noteq> [InternalInterval (- 2) 5]
   \<and> IntervalSet_contains_set cpython_hash [InternalInterval (- 1) 5] [InternalInterval (- 2) 5] = Inr True
   \<and> IntervalSet_contains cpython_hash [InternalInterval (- 1) 5] (InternalInterval (- 2) 5) = Inr False"
  by code_simp

text \<open>
  C6. Every IntervalSet obtained by construction from intervals made by the factory, or
  by intersection, union, difference or symmetric difference of sets so obtained,
  satisfies the three invariants: begins strictly increase, each member ends strictly
  before the next begins, and no member is Empty.
\<close>

theorem reachable_canonical: "reachable tr s \<Longrightarrow> canonical s"
  using reachable_inv by blast

theorem reachable_canonical_witness:
  "reachable (\<lambda>n::int. n \<noteq> 0) [InternalInterval 1 3, InternalInterval 12 15]
   \<and> canonical [InternalInterval (1::int) 3, InternalInterval 12 15]"
proof -
  have a: "reachable (\<lambda>n::int. n \<noteq> 0) [InternalInterval 1 5, InternalInterval 10 15]"
    by (rule reachable.construct[of "[Interval 10 15, Interval 1 5]"]) code_simp+
  have b: "reachable (\<lambda>n::int. n \<noteq> 0) [InternalInterval 3 12]"
    by (rule reachable.construct[of "[Interval 3 12]"]) code_simp+
  have r: "reachable (\<lambda>n::int. n \<noteq> 0) [InternalInterval 1 3, InternalInterval 12 15]"
    by (rule reachable.difference[OF a b]) code_simp
  from r reachable_canonical[OF r] show ?thesis by simp
qed

text \<open>
  C7. The claim: pairwise intersection is commutative, \<open>a & a = a\<close> for every non-empty
  \<open>a\<close>, and the intersection is Empty when the operands are disjoint or touching or
  when either is Empty. In the code \<^verbatim>\<open>Interval(5, 5)\<close> is a true (non-Empty) object and
  its intersection with itself is Empty; and with the Empty interval on the left the
  expression raises TypeError, while with Empty on the right it is Empty.
\<close>

theorem intersection_degenerate_and_empty_left:
  "truth (Interval (5::int) 5)
   \<and> py_and (Interval (5::int) 5) (Interval 5 5) = Inr EMPTY_INTERVAL
   \<and> py_and EMPTY_INTERVAL (Interval (1::int) 2) = Inl TypeError
   \<and> py_and (Interval (1::int) 2) EMPTY_INTERVAL = Inr EMPTY_INTERVAL"
  by code_simp

text \<open>
  C8. The claim: pairwise union raises the invalid-union error (ValueError) exactly when
  either operand is Empty or there is a strict gap. In the code, with the Empty interval
  on the left the expression raises TypeError instead; with Empty on the right it
  raises ValueError.
\<close>

theorem union_empty_left_raises_type_error:
  "py_or EMPTY_INTERVAL (Interval (1::int) 2) = Inl TypeError
   \<and> py_or (Interval (1::int) 2) EMPTY_INTERVAL = Inl ValueError"
  by code_simp

text \<open>
  C9. The claim: containment involving Empty is always false, and membership of the
  Empty interval in an IntervalSet is false. In the code the Empty interval is a member
  of every non-empty IntervalSet, and \<^verbatim>\<open>x in EMPTY_INTERVAL\<close> raises TypeError.
\<close>

theorem empty_is_member_of_nonempty_set:
  "fill_items [Interval 1 2] = Inr [InternalInterval (1::int) 2]
   \<and> IntervalSet_contains cpython_hash [InternalInterval 1 2] EMPTY_INTERVAL = Inr True
   \<and> py_in (Interval (1::int) 2) EMPTY_INTERVAL = Inl TypeError"
  by code_simp

text \<open>
  C10. Normalisation never raises the internal error: for every collection of intervals
  made by the factory, whatever \<^verbatim>\<open>_fill_items\<close> does after sorting, it does not reach
  \<^verbatim>\<open>raise Exception("Internal error")\<close>.
\<close>

theorem fill_items_no_internal_error:
  "list_all well_formed items \<Longrightarrow> fill_items items \<noteq> Inl InternalError"
  using fill_items_cases[of items] by auto

theorem fill_items_no_internal_error_witness:
  "list_all well_formed [Interval (3::int) 3, Interval 1 5, Interval 5 5, Interval 3 9, Interval 20 30]
   \<and> fill_items [Interval (3::int) 3, Interval 1 5, Interval 5 5, Interval 3 9, Interval 20 30]
       = Inr [InternalInterval 1 9, InternalInterval 20 30]
   \<and> fill_items [Interval (3::int) 3, Interval 1 5, Interval 5 5, Interval 3 9, Interval 20 30]
       \<noteq> Inl InternalError"
proof -
  have w: "list_all well_formed [Interval (3::int) 3, Interval 1 5, Interval 5 5, Interval 3 9, Interval 20 30]"
    by code_simp
  have e: "fill_items [Interval (3::int) 3, Interval 1 5, Interval 5 5, Interval 3 9, Interval 20 30]
       = Inr [InternalInterval 1 9, InternalInterval 20 30]"
    by code_simp
  from w e fill_items_no_internal_error[OF w] show ?thesis by blast
qed

end
